theory Spec2Isabelle
  imports Main "HOL-Library.AList" "HOL-Library.Multiset"
begin

section \<open>Severity constants\<close>

text \<open>
  The module \<^verbatim>\<open>netbox/dcim/monitoring.py\<close> imports its five log levels from
  \<^verbatim>\<open>.constants\<close>. Levels are dictionary keys and sort keys, so they are integers here.
\<close>

type_synonym level = int

text \<open>
  The constants module (\<^verbatim>\<open>LOG_DEFAULT\<close>, \<^verbatim>\<open>LOG_OK\<close>, \<^verbatim>\<open>LOG_INFO\<close>, \<^verbatim>\<open>LOG_WARNING\<close>,
  \<^verbatim>\<open>LOG_FAILURE\<close>) is not among the source files, so the five values are parameters of
  every operation that uses them.
\<close>

record constants =
  LOG_DEFAULT :: level
  LOG_OK :: level
  LOG_INFO :: level
  LOG_WARNING :: level
  LOG_FAILURE :: level

text \<open>
  Modelled from the spec: the values of the five constants are missing; the
  specification fixes their order, from lowest to highest precedence: DEFAULT, OK, INFO,
  WARNING, FAILURE, a higher value being more severe.
\<close>

definition levels_ordered :: "constants \<Rightarrow> bool" where
  "levels_ordered c \<longleftrightarrow>
     LOG_DEFAULT c < LOG_OK c \<and> LOG_OK c < LOG_INFO c \<and>
     LOG_INFO c < LOG_WARNING c \<and> LOG_WARNING c < LOG_FAILURE c"

definition level_list :: "constants \<Rightarrow> level list" where
  "level_list c = [LOG_DEFAULT c, LOG_OK c, LOG_INFO c, LOG_WARNING c, LOG_FAILURE c]"

section \<open>Objects and the store\<close>

text \<open>
  Python objects are mutable and shared by reference: \<^verbatim>\<open>__add__\<close> extends the lists of
  \<^verbatim>\<open>self\<close> in place, may bind a list of \<^verbatim>\<open>other\<close> into \<^verbatim>\<open>self\<close>, and returns
  \<^verbatim>\<open>self\<close>. The store therefore keeps three kinds of objects behind references: the
  message lists, the \<^verbatim>\<open>MonitoringResults\<close> objects (whose dictionary \<^verbatim>\<open>logs\<close> maps a
  level to a reference to a list) and the \<^verbatim>\<open>Monitoring\<close> instances. A dictionary is an
  association list in insertion order. Allocation takes the next unused reference.
\<close>

type_synonym ref = nat

datatype exn = KeyError | ValueError | NotImplementedError | RuntimeError string

record MonitoringResults =
  logs :: "(level \<times> ref) list"

record MonitoringMessage =
  level :: level
  message :: string

text \<open>
  The method \<^verbatim>\<open>get\<close> of a \<^verbatim>\<open>Monitoring\<close> subclass is written by the user of the
  framework. Its body is a parameter of the model: a straight-line program over the five
  logging methods that the base class offers, which may raise at any point.
\<close>

datatype stmt =
    Log_default string
  | Log_ok string
  | Log_info string
  | Log_warning string
  | Log_failure string
  | Raise exn

record 'd Monitoring =
  active_test :: "string option"
  failed :: bool
  results :: ref
  get_impl :: "'d \<Rightarrow> stmt list"

record 'd store =
  list_objs :: "ref \<Rightarrow> string list"
  results_objs :: "ref \<Rightarrow> MonitoringResults"
  monitoring_objs :: "ref \<Rightarrow> 'd Monitoring"
  next_ref :: ref

text \<open>The values that can stand on the right of \<^verbatim>\<open>+\<close>.\<close>

datatype pyval = PyNone | PyBool bool | PyInt int | PyStr string | PyResults ref

text \<open>\<^verbatim>\<open>other == 0\<close>: a number equals zero by value (\<^verbatim>\<open>False == 0\<close> holds in Python); an
  object without \<^verbatim>\<open>__eq__\<close>, such as a \<^verbatim>\<open>MonitoringResults\<close>, a string or \<^verbatim>\<open>None\<close>,
  never does.\<close>

fun eq_zero :: "pyval \<Rightarrow> bool" where
  "eq_zero (PyInt i) = (i = 0)"
| "eq_zero (PyBool b) = (\<not> b)"
| "eq_zero _ = False"

fun is_results :: "pyval \<Rightarrow> bool" where
  "is_results (PyResults r) = True"
| "is_results _ = False"

section \<open>MonitoringResults\<close>

text \<open>\<^verbatim>\<open>__init__\<close>: a fresh object whose dictionary literal binds each of the five levels,
  in the order written, to a fresh empty list.\<close>

definition MonitoringResults_init :: "constants \<Rightarrow> 'd store \<Rightarrow> ref \<times> 'd store" where
  "MonitoringResults_init c s =
     (let self = next_ref s; p = Suc self in
      (self,
       s\<lparr>list_objs := (list_objs s)
            (p := [], p + 1 := [], p + 2 := [], p + 3 := [], p + 4 := []),
         results_objs := (results_objs s)
            (self := \<lparr>logs =
               AList.update (LOG_FAILURE c) (p + 4)
                (AList.update (LOG_WARNING c) (p + 3)
                  (AList.update (LOG_INFO c) (p + 2)
                    (AList.update (LOG_OK c) (p + 1)
                      (AList.update (LOG_DEFAULT c) p []))))\<rparr>),
         next_ref := p + 5\<rparr>))"

text \<open>\<^verbatim>\<open>log\<close>: \<^verbatim>\<open>self.logs[level].append(message)\<close>; a missing key raises.\<close>

definition log :: "ref \<Rightarrow> level \<Rightarrow> string \<Rightarrow> 'd store \<Rightarrow> exn + 'd store" where
  "log self lvl msg s =
     (case map_of (logs (results_objs s self)) lvl of
        None \<Rightarrow> Inl KeyError
      | Some p \<Rightarrow> Inr (s\<lparr>list_objs := (list_objs s)(p := list_objs s p @ [msg])\<rparr>))"

text \<open>The expression \<^verbatim>\<open>self.logs[level]\<close>, read as the current contents of the list.\<close>

definition bucket_at :: "ref \<Rightarrow> level \<Rightarrow> 'd store \<Rightarrow> exn + string list" where
  "bucket_at self lvl s =
     (case map_of (logs (results_objs s self)) lvl of
        None \<Rightarrow> Inl KeyError
      | Some p \<Rightarrow> Inr (list_objs s p))"

definition get_worst_message :: "constants \<Rightarrow> ref \<Rightarrow> 'd store \<Rightarrow> exn + MonitoringMessage" where
  "get_worst_message c self s =
     (case bucket_at self (LOG_FAILURE c) s of Inl e \<Rightarrow> Inl e | Inr fs \<Rightarrow>
      (if fs \<noteq> [] then Inr \<lparr>level = LOG_FAILURE c, message = hd fs\<rparr> else
      (case bucket_at self (LOG_WARNING c) s of Inl e \<Rightarrow> Inl e | Inr ws \<Rightarrow>
      (if ws \<noteq> [] then Inr \<lparr>level = LOG_WARNING c, message = hd ws\<rparr> else
      (case bucket_at self (LOG_INFO c) s of Inl e \<Rightarrow> Inl e | Inr ns \<Rightarrow>
      (if ns \<noteq> [] then Inr \<lparr>level = LOG_INFO c, message = hd ns\<rparr> else
      (case bucket_at self (LOG_OK c) s of Inl e \<Rightarrow> Inl e | Inr os \<Rightarrow>
      (if os \<noteq> [] then Inr \<lparr>level = LOG_OK c, message = hd os\<rparr> else
      (case bucket_at self (LOG_DEFAULT c) s of Inl e \<Rightarrow> Inl e | Inr ds \<Rightarrow>
      (if ds \<noteq> [] then Inr \<lparr>level = LOG_DEFAULT c, message = hd ds\<rparr> else
       Inr \<lparr>level = LOG_DEFAULT c, message = ''''\<rparr>))))))))))"

text \<open>
  \<^verbatim>\<open>__add__\<close>. The loop runs over the entries of \<^verbatim>\<open>other.logs\<close>. The dictionary of
  \<^verbatim>\<open>other\<close> does not change while the loop runs (when \<^verbatim>\<open>other\<close> is \<^verbatim>\<open>self\<close> every key
  is present, so nothing is inserted), hence the entries are read once; the contents of
  the lists are read from the store at each step, since \<^verbatim>\<open>+=\<close> extends a list in place.
  A key that \<^verbatim>\<open>self\<close> lacks is bound to the very list object of \<^verbatim>\<open>other\<close>.
\<close>

fun add_loop :: "ref \<Rightarrow> (level \<times> ref) list \<Rightarrow> 'd store \<Rightarrow> 'd store" where
  "add_loop self [] s = s"
| "add_loop self ((key, p) # rest) s =
     (case map_of (logs (results_objs s self)) key of
        Some q \<Rightarrow>
          add_loop self rest (s\<lparr>list_objs := (list_objs s)(q := list_objs s q @ list_objs s p)\<rparr>)
      | None \<Rightarrow>
          add_loop self rest
            (s\<lparr>results_objs := (results_objs s)
                 (self := \<lparr>logs = AList.update key p (logs (results_objs s self))\<rparr>)\<rparr>))"

definition add :: "ref \<Rightarrow> pyval \<Rightarrow> 'd store \<Rightarrow> exn + (ref \<times> 'd store)" where
  "add self other s =
     (if eq_zero other then Inr (self, s)
      else case other of
        PyResults r \<Rightarrow> Inr (self, add_loop self (logs (results_objs s r)) s)
      | _ \<Rightarrow> Inl ValueError)"

text \<open>\<^verbatim>\<open>get_messages\<close> returns the list object itself.\<close>

definition get_messages :: "ref \<Rightarrow> level \<Rightarrow> 'd store \<Rightarrow> exn + ref" where
  "get_messages self lvl s =
     (case map_of (logs (results_objs s self)) lvl of
        None \<Rightarrow> Inl KeyError
      | Some p \<Rightarrow> Inr p)"

text \<open>
  \<^verbatim>\<open>get_all_messages\<close>. Python's \<^verbatim>\<open>sort\<close> is stable, also with \<^verbatim>\<open>reverse=True\<close>:
  elements with equal keys keep their order. On integer keys that is the stable
  ascending sort on the negated key.
\<close>

definition get_all_messages :: "ref \<Rightarrow> 'd store \<Rightarrow> MonitoringMessage list" where
  "get_all_messages self s =
     sort_key (\<lambda>m. - level m)
       (concat (map (\<lambda>(lvl, p). map (\<lambda>msg. \<lparr>level = lvl, message = msg\<rparr>) (list_objs s p))
                    (logs (results_objs s self))))"

section \<open>Monitoring\<close>

text \<open>\<^verbatim>\<open>__init__\<close>; the body of \<^verbatim>\<open>get\<close> comes with the class of the instance.\<close>

definition Monitoring_init :: "constants \<Rightarrow> ('d \<Rightarrow> stmt list) \<Rightarrow> 'd store \<Rightarrow> ref \<times> 'd store" where
  "Monitoring_init c impl s =
     (let self = next_ref s;
          (r, s1) = MonitoringResults_init c (s\<lparr>next_ref := Suc self\<rparr>)
      in (self,
          s1\<lparr>monitoring_objs := (monitoring_objs s1)
               (self := \<lparr>active_test = None, failed = False, results = r, get_impl = impl\<rparr>)\<rparr>))"

text \<open>The base class leaves \<^verbatim>\<open>get\<close> unimplemented.\<close>

definition Monitoring_get :: "'d \<Rightarrow> stmt list" where
  "Monitoring_get device = [Raise NotImplementedError]"

definition log_default :: "constants \<Rightarrow> ref \<Rightarrow> string \<Rightarrow> 'd store \<Rightarrow> exn + 'd store" where
  "log_default c self msg s = log (results (monitoring_objs s self)) (LOG_DEFAULT c) msg s"

definition log_ok :: "constants \<Rightarrow> ref \<Rightarrow> string \<Rightarrow> 'd store \<Rightarrow> exn + 'd store" where
  "log_ok c self msg s = log (results (monitoring_objs s self)) (LOG_OK c) msg s"

definition log_info :: "constants \<Rightarrow> ref \<Rightarrow> string \<Rightarrow> 'd store \<Rightarrow> exn + 'd store" where
  "log_info c self msg s = log (results (monitoring_objs s self)) (LOG_INFO c) msg s"

definition log_warning :: "constants \<Rightarrow> ref \<Rightarrow> string \<Rightarrow> 'd store \<Rightarrow> exn + 'd store" where
  "log_warning c self msg s = log (results (monitoring_objs s self)) (LOG_WARNING c) msg s"

definition log_failure :: "constants \<Rightarrow> ref \<Rightarrow> string \<Rightarrow> 'd store \<Rightarrow> exn + 'd store" where
  "log_failure c self msg s = log (results (monitoring_objs s self)) (LOG_FAILURE c) msg s"

fun exec_stmt :: "constants \<Rightarrow> ref \<Rightarrow> stmt \<Rightarrow> 'd store \<Rightarrow> exn + 'd store" where
  "exec_stmt c self (Log_default msg) s = log_default c self msg s"
| "exec_stmt c self (Log_ok msg) s = log_ok c self msg s"
| "exec_stmt c self (Log_info msg) s = log_info c self msg s"
| "exec_stmt c self (Log_warning msg) s = log_warning c self msg s"
| "exec_stmt c self (Log_failure msg) s = log_failure c self msg s"
| "exec_stmt c self (Raise e) s = Inl e"

fun exec_body :: "constants \<Rightarrow> ref \<Rightarrow> stmt list \<Rightarrow> 'd store \<Rightarrow> exn + 'd store" where
  "exec_body c self [] s = Inr s"
| "exec_body c self (st # sts) s =
     (case exec_stmt c self st s of Inl e \<Rightarrow> Inl e | Inr s' \<Rightarrow> exec_body c self sts s')"

text \<open>\<^verbatim>\<open>run\<close>: \<^verbatim>\<open>self.get(device)\<close>, then \<^verbatim>\<open>return self._results\<close>.\<close>

definition run :: "constants \<Rightarrow> ref \<Rightarrow> 'd \<Rightarrow> 'd store \<Rightarrow> exn + (ref \<times> 'd store)" where
  "run c self device s =
     (case exec_body c self (get_impl (monitoring_objs s self) device) s of
        Inl e \<Rightarrow> Inl e
      | Inr s' \<Rightarrow> Inr (results (monitoring_objs s' self), s'))"

section \<open>The module-level function get\<close>

text \<open>
  \<^verbatim>\<open>get_monitoring\<close> walks the packages under a configured path and instantiates every
  monitoring class it finds; the list of instances it returns is a parameter here.
  \<^verbatim>\<open>results += module.run(device)\<close> calls \<^verbatim>\<open>__add__\<close> (the class has no \<^verbatim>\<open>__iadd__\<close>) and
  rebinds \<^verbatim>\<open>results\<close> to what it returns.
\<close>

fun get_loop :: "constants \<Rightarrow> ref \<Rightarrow> ref list \<Rightarrow> 'd \<Rightarrow> 'd store \<Rightarrow> exn + (ref \<times> 'd store)" where
  "get_loop c res [] device s = Inr (res, s)"
| "get_loop c res (m # ms) device s =
     (case run c m device s of
        Inl e \<Rightarrow> Inl e
      | Inr (r, s1) \<Rightarrow>
          (case add res (PyResults r) s1 of
             Inl e \<Rightarrow> Inl e
           | Inr (res', s2) \<Rightarrow> get_loop c res' ms device s2))"

definition get :: "constants \<Rightarrow> ref list \<Rightarrow> 'd \<Rightarrow> 'd store \<Rightarrow> exn + (ref \<times> 'd store)" where
  "get c modules device s =
     (case MonitoringResults_init c s of (res, s0) \<Rightarrow> get_loop c res modules device s0)"

section \<open>Observations and well-formedness\<close>

text \<open>The \<^verbatim>\<open>MonitoringResults\<close> object that a \<^verbatim>\<open>Monitoring\<close> instance holds.\<close>

definition res_of :: "'d store \<Rightarrow> ref \<Rightarrow> ref" where
  "res_of s m = results (monitoring_objs s m)"

definition keys_of :: "'d store \<Rightarrow> ref \<Rightarrow> level list" where
  "keys_of s r = map fst (logs (results_objs s r))"

definition refs_of :: "'d store \<Rightarrow> ref \<Rightarrow> ref list" where
  "refs_of s r = map snd (logs (results_objs s r))"

text \<open>The contents of a log as a mapping from level to message sequence; a level
  without a bucket has no messages.\<close>

definition bucket :: "'d store \<Rightarrow> ref \<Rightarrow> level \<Rightarrow> string list" where
  "bucket s r lvl =
     (case map_of (logs (results_objs s r)) lvl of None \<Rightarrow> [] | Some p \<Rightarrow> list_objs s p)"

text \<open>
  The shape every \<^verbatim>\<open>MonitoringResults\<close> has that was made by \<^verbatim>\<open>__init__\<close> and then
  only used through \<^verbatim>\<open>log\<close> and \<^verbatim>\<open>__add__\<close> with logs of the same shape: one bucket
  for each of the five levels and no other, each bucket a list object of its own.
\<close>

definition results_ok :: "constants \<Rightarrow> 'd store \<Rightarrow> ref \<Rightarrow> bool" where
  "results_ok c s r \<longleftrightarrow>
     distinct (keys_of s r) \<and> set (keys_of s r) = set (level_list c) \<and> distinct (refs_of s r)"

text \<open>Two logs that share no list object.\<close>

definition separate :: "'d store \<Rightarrow> ref \<Rightarrow> ref \<Rightarrow> bool" where
  "separate s a b \<longleftrightarrow> set (refs_of s a) \<inter> set (refs_of s b) = {}"

text \<open>What a body of \<^verbatim>\<open>get\<close> logs and whether it raises.\<close>

fun call_of :: "constants \<Rightarrow> stmt \<Rightarrow> (level \<times> string) option" where
  "call_of c (Log_default msg) = Some (LOG_DEFAULT c, msg)"
| "call_of c (Log_ok msg) = Some (LOG_OK c, msg)"
| "call_of c (Log_info msg) = Some (LOG_INFO c, msg)"
| "call_of c (Log_warning msg) = Some (LOG_WARNING c, msg)"
| "call_of c (Log_failure msg) = Some (LOG_FAILURE c, msg)"
| "call_of c (Raise e) = None"

fun raises :: "stmt list \<Rightarrow> exn option" where
  "raises [] = None"
| "raises (Raise e # sts) = Some e"
| "raises (st # sts) = raises sts"

definition logged :: "constants \<Rightarrow> stmt list \<Rightarrow> level \<Rightarrow> string list" where
  "logged c sts lvl = map snd (filter (\<lambda>(k, msg). k = lvl) (List.map_filter (call_of c) sts))"

text \<open>A sequence of calls \<^verbatim>\<open>self.log(level, message)\<close>.\<close>

fun log_all :: "ref \<Rightarrow> (level \<times> string) list \<Rightarrow> 'd store \<Rightarrow> exn + 'd store" where
  "log_all self [] s = Inr s"
| "log_all self ((lvl, msg) # calls) s =
     (case log self lvl msg s of Inl e \<Rightarrow> Inl e | Inr s' \<Rightarrow> log_all self calls s')"

text \<open>What a sequence of calls of \<^verbatim>\<open>log\<close> appends to the list object \<^verbatim>\<open>p\<close> of a log
  with dictionary \<^verbatim>\<open>d\<close>.\<close>

definition texts_at :: "(level \<times> string) list \<Rightarrow> (level \<times> ref) list \<Rightarrow> ref \<Rightarrow> string list" where
  "texts_at calls d p = map snd (filter (\<lambda>(k, msg). map_of d k = Some p) calls)"

text \<open>Concrete values for the examples: the levels of NetBox's reports, and a store
  in which nothing is allocated yet.\<close>

definition example_levels :: constants where
  "example_levels =
     \<lparr>LOG_DEFAULT = 0, LOG_OK = 10, LOG_INFO = 20, LOG_WARNING = 30, LOG_FAILURE = 40\<rparr>"

definition empty_store :: "'d store" where
  "empty_store =
     \<lparr>list_objs = (\<lambda>_. []), results_objs = (\<lambda>_. \<lparr>logs = []\<rparr>),
      monitoring_objs =
        (\<lambda>_. \<lparr>active_test = None, failed = False, results = 0, get_impl = (\<lambda>_. [])\<rparr>),
      next_ref = 0\<rparr>"

text \<open>What \<^verbatim>\<open>__add__\<close> appends to the list object \<^verbatim>\<open>x\<close> of a log with dictionary \<^verbatim>\<open>A\<close>
  when it runs over the entries \<^verbatim>\<open>d\<close>.\<close>

definition added :: "'d store \<Rightarrow> (level \<times> ref) list \<Rightarrow> (level \<times> ref) list \<Rightarrow> ref \<Rightarrow> string list" where
  "added s d A x = concat (map (\<lambda>(k, p). if map_of A k = Some x then list_objs s p else []) d)"

text \<open>
  A list of module instances as \<^verbatim>\<open>get_monitoring\<close> returns it: \<^verbatim>\<open>cls()\<close> makes
  each instance with a log of its own, of the standard shape, and every object of it is
  allocated.
\<close>

definition modules_ok :: "constants \<Rightarrow> 'd store \<Rightarrow> ref list \<Rightarrow> bool" where
  "modules_ok c s ms \<longleftrightarrow>
     (\<forall>m \<in> set ms. results_ok c s (res_of s m) \<and> res_of s m < next_ref s \<and>
        (\<forall>p \<in> set (refs_of s (res_of s m)). p < next_ref s)) \<and>
     distinct (concat (map (\<lambda>m. refs_of s (res_of s m)) ms))"

text \<open>Three monitoring classes and the store after one instance of each is made; then
  the store after the first two have run on device 0.\<close>

definition ping_body :: "nat \<Rightarrow> stmt list" where
  "ping_body device = [Log_ok ''ping succeeded'']"

definition latency_body :: "nat \<Rightarrow> stmt list" where
  "latency_body device = [Log_warning ''high latency'', Log_failure ''unreachable'']"

definition broken_body :: "nat \<Rightarrow> stmt list" where
  "broken_body device = [Log_info ''probing'', Raise (RuntimeError ''boom'')]"

definition example_store :: "nat store" where
  "example_store =
     (let (m1, s1) = Monitoring_init example_levels ping_body empty_store;
          (m2, s2) = Monitoring_init example_levels latency_body s1;
          (m3, s3) = Monitoring_init example_levels broken_body s2
      in s3)"

definition example_run :: "nat store" where
  "example_run =
     (case run example_levels 0 0 example_store of
        Inl e \<Rightarrow> example_store
      | Inr (r1, s1) \<Rightarrow>
          (case run example_levels 7 0 s1 of Inl e \<Rightarrow> example_store | Inr (r2, s2) \<Rightarrow> s2))"

section \<open>Basic facts about dictionaries and buckets\<close>

lemma levels_distinct: "levels_ordered c \<Longrightarrow> distinct (level_list c)"
  by (auto simp: levels_ordered_def level_list_def)

lemma map_of_snd_inj:
  "distinct (map snd d) \<Longrightarrow> map_of d k = Some p \<Longrightarrow> map_of d l = Some p \<Longrightarrow> k = l"
proof -
  assume d: "distinct (map snd d)" and k: "map_of d k = Some p" and l: "map_of d l = Some p"
  from k l have "(k, p) \<in> set d" "(l, p) \<in> set d" by (auto dest: map_of_SomeD)
  with d show "k = l" by (metis distinct_map inj_onD prod.inject snd_conv)
qed

lemma concat_map_key:
  "distinct (map fst d) \<Longrightarrow>
   concat (map (\<lambda>(k, p). if k = l then f p else []) d) =
     (case map_of d l of None \<Rightarrow> [] | Some p \<Rightarrow> f p)"
proof (induction d)
  case Nil
  then show ?case by simp
next
  case (Cons a d)
  obtain k p where a: "a = (k, p)" by (cases a)
  show ?case
  proof (cases "k = l")
    case True
    with Cons.prems a have "l \<notin> fst ` set d" by auto
    then have "concat (map (\<lambda>(k, p). if k = l then f p else []) d) = []"
      by (induction d) auto
    with True a show ?thesis by simp
  next
    case False
    with Cons a show ?thesis by simp
  qed
qed

lemma key_ref:
  "l \<in> set (keys_of s r) \<Longrightarrow> \<exists>p. map_of (logs (results_objs s r)) l = Some p \<and> p \<in> set (refs_of s r)"
proof -
  assume "l \<in> set (keys_of s r)"
  then obtain p where p: "map_of (logs (results_objs s r)) l = Some p"
    unfolding keys_of_def by (metis domD dom_map_of_conv_image_fst set_map)
  then have "p \<in> set (refs_of s r)" unfolding refs_of_def by (force dest: map_of_SomeD)
  with p show ?thesis by blast
qed

lemma bucket_no_key: "l \<notin> set (keys_of s r) \<Longrightarrow> bucket s r l = []"
  by (auto simp: bucket_def keys_of_def split: option.splits dest!: map_of_SomeD) force

lemma shape_cong:
  "results_objs s' = results_objs s \<Longrightarrow> keys_of s' = keys_of s"
  "results_objs s' = results_objs s \<Longrightarrow> refs_of s' = refs_of s"
  "results_objs s' = results_objs s \<Longrightarrow> results_ok c s' = results_ok c s"
  "results_objs s' = results_objs s \<Longrightarrow> separate s' = separate s"
  by (auto simp: keys_of_def refs_of_def results_ok_def separate_def fun_eq_iff)

lemma shape_cong1:
  assumes "results_objs s' r = results_objs s r"
  shows "keys_of s' r = keys_of s r" and "refs_of s' r = refs_of s r"
    and "results_ok c s' r = results_ok c s r"
  using assms by (simp_all add: keys_of_def refs_of_def results_ok_def)

lemma bucket_frame:
  "results_objs s' = results_objs s \<Longrightarrow>
   (\<And>x. x \<in> set (refs_of s r) \<Longrightarrow> list_objs s' x = list_objs s x) \<Longrightarrow>
   bucket s' r l = bucket s r l"
  by (force simp: bucket_def refs_of_def split: option.splits dest!: map_of_SomeD)

lemma bucket_at_bucket:
  "l \<in> set (keys_of s r) \<Longrightarrow> bucket_at r l s = Inr (bucket s r l)"
  using key_ref[of l s r] by (auto simp: bucket_at_def bucket_def)

lemma get_messages_bucket:
  "l \<in> set (keys_of s r) \<Longrightarrow> \<exists>p. get_messages r l s = Inr p \<and> list_objs s p = bucket s r l"
  using key_ref[of l s r] by (auto simp: get_messages_def bucket_def)

section \<open>A fresh log\<close>

lemma init_logs:
  "levels_ordered c \<Longrightarrow>
   logs (results_objs (snd (MonitoringResults_init c s)) (next_ref s)) =
     [(LOG_DEFAULT c, next_ref s + 1), (LOG_OK c, next_ref s + 2), (LOG_INFO c, next_ref s + 3),
      (LOG_WARNING c, next_ref s + 4), (LOG_FAILURE c, next_ref s + 5)]"
  by (auto simp: MonitoringResults_init_def Let_def levels_ordered_def)

lemma init_ok:
  "levels_ordered c \<Longrightarrow> results_ok c (snd (MonitoringResults_init c s)) (next_ref s)"
  unfolding results_ok_def keys_of_def refs_of_def
  by (simp add: init_logs) (auto simp: level_list_def levels_ordered_def)

lemma init_effect:
  assumes lv: "levels_ordered c" and i: "MonitoringResults_init c s = (r, s0)"
  shows "r = next_ref s" and "results_ok c s0 r" and "bucket s0 r l = []"
    and "set (refs_of s0 r) = {next_ref s + 1 .. next_ref s + 5}"
    and "r' \<noteq> r \<Longrightarrow> results_objs s0 r' = results_objs s r'"
    and "p \<le> next_ref s \<Longrightarrow> list_objs s0 p = list_objs s p"
    and "monitoring_objs s0 = monitoring_objs s" and "next_ref s0 = next_ref s + 6"
proof -
  from i have r: "r = next_ref s" and s0: "s0 = snd (MonitoringResults_init c s)"
    by (auto simp: MonitoringResults_init_def Let_def)
  show "r = next_ref s" by (rule r)
  show "results_ok c s0 r" unfolding r s0 using lv by (rule init_ok)
  have lg: "logs (results_objs s0 r) =
     [(LOG_DEFAULT c, next_ref s + 1), (LOG_OK c, next_ref s + 2), (LOG_INFO c, next_ref s + 3),
      (LOG_WARNING c, next_ref s + 4), (LOG_FAILURE c, next_ref s + 5)]"
    unfolding r s0 using lv by (rule init_logs)
  show "set (refs_of s0 r) = {next_ref s + 1 .. next_ref s + 5}"
    by (auto simp: refs_of_def lg)
  show "bucket s0 r l = []"
    by (simp add: bucket_def lg) (simp add: s0 MonitoringResults_init_def Let_def)
  show "results_objs s0 r' = results_objs s r'" if "r' \<noteq> r"
    using that by (simp add: s0 r MonitoringResults_init_def Let_def)
  show "list_objs s0 p = list_objs s p" if "p \<le> next_ref s"
    using that by (simp add: s0 MonitoringResults_init_def Let_def)
  show "monitoring_objs s0 = monitoring_objs s" "next_ref s0 = next_ref s + 6"
    by (simp_all add: s0 MonitoringResults_init_def Let_def)
qed

section \<open>The effect of log\<close>

text \<open>A sequence of calls of \<^verbatim>\<open>log\<close> whose levels all have a bucket extends each list
  object by the texts logged at the levels bound to it.\<close>

lemma log_all_closed:
  "\<forall>(k, msg) \<in> set calls. k \<in> fst ` set (logs (results_objs s r)) \<Longrightarrow>
   log_all r calls s =
     Inr (s\<lparr>list_objs := (\<lambda>p. list_objs s p @ texts_at calls (logs (results_objs s r)) p)\<rparr>)"
proof (induction calls arbitrary: s)
  case Nil
  then show ?case by (simp add: texts_at_def)
next
  case (Cons a calls)
  obtain k msg where a: "a = (k, msg)" by (cases a)
  let ?d = "logs (results_objs s r)"
  from Cons.prems a have "k \<in> fst ` set ?d" by auto
  then obtain p where p: "map_of ?d k = Some p"
    by (metis domD dom_map_of_conv_image_fst)
  let ?s1 = "s\<lparr>list_objs := (list_objs s)(p := list_objs s p @ [msg])\<rparr>"
  have l: "log r k msg s = Inr ?s1" by (simp add: log_def p)
  have ih: "log_all r calls ?s1 =
     Inr (?s1\<lparr>list_objs := (\<lambda>q. list_objs ?s1 q @ texts_at calls (logs (results_objs ?s1 r)) q)\<rparr>)"
    using Cons.prems by (intro Cons.IH) auto
  have "(\<lambda>q. list_objs ?s1 q @ texts_at calls ?d q) = (\<lambda>q. list_objs s q @ texts_at (a # calls) ?d q)"
    by (rule ext) (simp add: a texts_at_def p)
  then show ?case using l ih by (simp add: a)
qed

lemma texts_at_bucket:
  "distinct (map snd d) \<Longrightarrow> map_of d l = Some p \<Longrightarrow> \<forall>(k, msg) \<in> set calls. k \<in> fst ` set d \<Longrightarrow>
   texts_at calls d p = map snd (filter (\<lambda>(k, msg). k = l) calls)"
proof -
  assume d: "distinct (map snd d)" and l: "map_of d l = Some p"
    and ks: "\<forall>(k, msg) \<in> set calls. k \<in> fst ` set d"
  have "filter (\<lambda>(k, msg). map_of d k = Some p) calls = filter (\<lambda>(k, msg). k = l) calls"
    by (rule filter_cong) (use d l in \<open>auto dest: map_of_snd_inj\<close>)
  then show ?thesis by (simp add: texts_at_def)
qed

lemma texts_at_other:
  "p \<notin> snd ` set d \<Longrightarrow> texts_at calls d p = []"
  by (force simp: texts_at_def filter_empty_conv dest!: map_of_SomeD)

lemma log_all_effect:
  assumes keys: "fst ` set calls \<subseteq> set (keys_of s r)" and inj: "distinct (refs_of s r)"
  shows "\<exists>s'. log_all r calls s = Inr s' \<and> results_objs s' = results_objs s
           \<and> monitoring_objs s' = monitoring_objs s \<and> next_ref s' = next_ref s
           \<and> (\<forall>l. bucket s' r l = bucket s r l @ map snd (filter (\<lambda>(k, msg). k = l) calls))
           \<and> (\<forall>x. x \<notin> set (refs_of s r) \<longrightarrow> list_objs s' x = list_objs s x)"
proof -
  let ?d = "logs (results_objs s r)"
  let ?s' = "s\<lparr>list_objs := (\<lambda>p. list_objs s p @ texts_at calls ?d p)\<rparr>"
  have ks: "\<forall>(k, msg) \<in> set calls. k \<in> fst ` set ?d"
    using keys by (force simp: keys_of_def)
  have run: "log_all r calls s = Inr ?s'" using ks by (rule log_all_closed)
  have b: "bucket ?s' r l = bucket s r l @ map snd (filter (\<lambda>(k, msg). k = l) calls)" for l
  proof (cases "l \<in> set (keys_of s r)")
    case True
    then obtain p where p: "map_of ?d l = Some p" using key_ref by blast
    have "texts_at calls ?d p = map snd (filter (\<lambda>(k, msg). k = l) calls)"
      using inj p ks unfolding refs_of_def by (rule texts_at_bucket)
    then show ?thesis using p by (simp add: bucket_def)
  next
    case False
    then have "filter (\<lambda>(k, msg). k = l) calls = []"
      using keys by (auto simp: filter_empty_conv)
    moreover have "bucket ?s' r l = []" "bucket s r l = []"
      using False by (simp_all add: bucket_no_key keys_of_def)
    ultimately show ?thesis by simp
  qed
  have f: "list_objs ?s' x = list_objs s x" if "x \<notin> set (refs_of s r)" for x
    using that by (simp add: texts_at_other refs_of_def)
  show ?thesis using run b f by auto
qed

lemma log_all_messages:
  assumes ok: "results_ok c s r" and calls: "fst ` set calls \<subseteq> set (level_list c)"
    and l: "l \<in> set (level_list c)"
  shows "\<exists>s' p. log_all r calls s = Inr s' \<and> get_messages r l s' = Inr p \<and>
           list_objs s' p = bucket s r l @ map snd (filter (\<lambda>(k, msg). k = l) calls)"
proof -
  have keys: "set (keys_of s r) = set (level_list c)" and inj: "distinct (refs_of s r)"
    using ok by (simp_all add: results_ok_def)
  from calls keys have "fst ` set calls \<subseteq> set (keys_of s r)" by simp
  from log_all_effect[OF this inj] obtain s' where
    s': "log_all r calls s = Inr s'" "results_objs s' = results_objs s"
      "\<forall>l. bucket s' r l = bucket s r l @ map snd (filter (\<lambda>(k, msg). k = l) calls)"
    by blast
  have "l \<in> set (keys_of s' r)" using l keys by (simp add: shape_cong[OF s'(2)])
  from get_messages_bucket[OF this] s' show ?thesis by auto
qed

section \<open>The effect of add\<close>

lemma add_results:
  "add a (PyResults b) s = Inr (a, add_loop a (logs (results_objs s b)) s)"
  by (simp add: add_def)

text \<open>When every key of \<^verbatim>\<open>other\<close> is a key of \<^verbatim>\<open>self\<close> and the two share no list,
  the loop extends each list of \<^verbatim>\<open>self\<close> by the list of \<^verbatim>\<open>other\<close> at the same key.\<close>

lemma add_loop_closed:
  "\<forall>(k, p) \<in> set d. k \<in> fst ` set (logs (results_objs s a)) \<Longrightarrow>
   \<forall>(k, p) \<in> set d. p \<notin> snd ` set (logs (results_objs s a)) \<Longrightarrow>
   add_loop a d s = s\<lparr>list_objs := (\<lambda>x. list_objs s x @ added s d (logs (results_objs s a)) x)\<rparr>"
proof (induction d arbitrary: s)
  case Nil
  then show ?case by (simp add: added_def)
next
  case (Cons e d)
  obtain k p where e: "e = (k, p)" by (cases e)
  let ?A = "logs (results_objs s a)"
  from Cons.prems e have "k \<in> fst ` set ?A" by auto
  then obtain q where q: "map_of ?A k = Some q"
    by (metis domD dom_map_of_conv_image_fst)
  then have qA: "q \<in> snd ` set ?A" by (force dest: map_of_SomeD)
  let ?s1 = "s\<lparr>list_objs := (list_objs s)(q := list_objs s q @ list_objs s p)\<rparr>"
  have step: "add_loop a (e # d) s = add_loop a d ?s1" by (simp add: e q)
  have ih: "add_loop a d ?s1 =
      ?s1\<lparr>list_objs := (\<lambda>x. list_objs ?s1 x @ added ?s1 d (logs (results_objs ?s1 a)) x)\<rparr>"
    using Cons.prems by (intro Cons.IH) auto
  have ne: "p' \<noteq> q" if "(k', p') \<in> set d" for k' p'
    using Cons.prems(2) qA that by auto
  have same: "added ?s1 d ?A x = added s d ?A x" for x
  proof -
    have "map (\<lambda>(k, p). if map_of ?A k = Some x then list_objs ?s1 p else []) d =
          map (\<lambda>(k, p). if map_of ?A k = Some x then list_objs s p else []) d"
      by (rule map_cong[OF refl]) (use ne in \<open>auto\<close>)
    then show ?thesis unfolding added_def by (rule arg_cong)
  qed
  have "(\<lambda>x. list_objs ?s1 x @ added ?s1 d ?A x) = (\<lambda>x. list_objs s x @ added s (e # d) ?A x)"
    by (rule ext) (simp add: same, simp add: added_def e q)
  then show ?case using step ih by simp
qed

lemma added_bucket:
  assumes "distinct (map snd A)" "distinct (map fst d)" "map_of A l = Some x"
    and "\<forall>(k, p) \<in> set d. k \<in> fst ` set A"
  shows "added s d A x = (case map_of d l of None \<Rightarrow> [] | Some p \<Rightarrow> list_objs s p)"
proof -
  have "map (\<lambda>(k, p). if map_of A k = Some x then list_objs s p else []) d =
        map (\<lambda>(k, p). if k = l then list_objs s p else []) d"
    by (rule map_cong[OF refl]) (use assms in \<open>auto dest: map_of_snd_inj\<close>)
  then have "added s d A x = concat (map (\<lambda>(k, p). if k = l then list_objs s p else []) d)"
    by (simp only: added_def)
  also have "\<dots> = (case map_of d l of None \<Rightarrow> [] | Some p \<Rightarrow> list_objs s p)"
    by (rule concat_map_key[OF assms(2)])
  finally show ?thesis .
qed

lemma added_other: "x \<notin> snd ` set A \<Longrightarrow> added s d A x = []"
  by (force simp: added_def dest!: map_of_SomeD)

lemma add_loop_effect:
  assumes sub: "set (keys_of s b) \<subseteq> set (keys_of s a)" and db: "distinct (keys_of s b)"
    and inj: "distinct (refs_of s a)" and sep: "separate s a b"
  defines "s' \<equiv> add_loop a (logs (results_objs s b)) s"
  shows "results_objs s' = results_objs s" and "monitoring_objs s' = monitoring_objs s"
    and "next_ref s' = next_ref s"
    and "bucket s' a l = bucket s a l @ bucket s b l"
    and "x \<notin> set (refs_of s a) \<Longrightarrow> list_objs s' x = list_objs s x"
proof -
  let ?A = "logs (results_objs s a)" and ?B = "logs (results_objs s b)"
  have k: "\<forall>(k, p) \<in> set ?B. k \<in> fst ` set ?A"
    using sub by (force simp: keys_of_def)
  have r: "\<forall>(k, p) \<in> set ?B. p \<notin> snd ` set ?A"
    using sep by (force simp: separate_def refs_of_def)
  have cl: "s' = s\<lparr>list_objs := (\<lambda>x. list_objs s x @ added s ?B ?A x)\<rparr>"
    unfolding s'_def using k r by (rule add_loop_closed)
  show "results_objs s' = results_objs s" "monitoring_objs s' = monitoring_objs s"
    "next_ref s' = next_ref s" by (simp_all add: cl)
  show "list_objs s' x = list_objs s x" if "x \<notin> set (refs_of s a)"
    using that by (simp add: cl added_other refs_of_def)
  show "bucket s' a l = bucket s a l @ bucket s b l"
  proof (cases "l \<in> set (keys_of s a)")
    case True
    then obtain x where x: "map_of ?A l = Some x" using key_ref by blast
    have "added s ?B ?A x = (case map_of ?B l of None \<Rightarrow> [] | Some p \<Rightarrow> list_objs s p)"
      using inj db x k unfolding refs_of_def keys_of_def by (intro added_bucket) auto
    then show ?thesis using x by (simp add: bucket_def cl)
  next
    case False
    with sub have "l \<notin> set (keys_of s b)" by auto
    then have "bucket s b l = []" by (rule bucket_no_key)
    moreover have "bucket s' a l = []" "bucket s a l = []"
      using False by (simp_all add: bucket_no_key keys_of_def cl)
    ultimately show ?thesis by simp
  qed
qed

text \<open>Whatever the keys are, the loop changes the contents of no list outside those
  that \<^verbatim>\<open>self\<close> had at the start, and no object but \<^verbatim>\<open>self\<close>.\<close>

lemma add_loop_protect:
  "distinct (map fst d) \<Longrightarrow>
   \<forall>(k, p) \<in> set d. \<forall>q. map_of (logs (results_objs s a)) k = Some q \<longrightarrow> q \<notin> X \<Longrightarrow>
   x \<in> X \<Longrightarrow> list_objs (add_loop a d s) x = list_objs s x"
proof (induction d arbitrary: s)
  case Nil
  then show ?case by simp
next
  case (Cons e d)
  obtain k p where e: "e = (k, p)" by (cases e)
  let ?A = "logs (results_objs s a)"
  from Cons.prems(1) e have d: "distinct (map fst d)" and k: "k \<notin> fst ` set d" by auto
  show ?case
  proof (cases "map_of ?A k")
    case (Some q)
    let ?s1 = "s\<lparr>list_objs := (list_objs s)(q := list_objs s q @ list_objs s p)\<rparr>"
    from Cons.prems(2) e Some have "q \<notin> X" by auto
    with Cons.prems(3) have "x \<noteq> q" by auto
    moreover have "list_objs (add_loop a d ?s1) x = list_objs ?s1 x"
      using d Cons.prems(2,3) by (intro Cons.IH) auto
    ultimately show ?thesis using e Some by simp
  next
    case None
    let ?s1 = "s\<lparr>results_objs := (results_objs s)(a := \<lparr>logs = AList.update k p ?A\<rparr>)\<rparr>"
    have "q \<notin> X" if "(k', p') \<in> set d" "map_of (logs (results_objs ?s1 a)) k' = Some q"
      for k' p' q
    proof -
      from that(1) k have "k' \<noteq> k" by force
      with that(2) have "map_of ?A k' = Some q" by (simp add: update_conv')
      with Cons.prems(2) that(1) show ?thesis by auto
    qed
    then have "\<forall>(k', p') \<in> set d. \<forall>q. map_of (logs (results_objs ?s1 a)) k' = Some q \<longrightarrow> q \<notin> X"
      by blast
    then have "list_objs (add_loop a d ?s1) x = list_objs ?s1 x"
      using d Cons.prems(3) by (intro Cons.IH)
    then show ?thesis using e None by simp
  qed
qed

lemma add_loop_others:
  "monitoring_objs (add_loop a d s) = monitoring_objs s \<and> next_ref (add_loop a d s) = next_ref s
   \<and> (\<forall>r. r \<noteq> a \<longrightarrow> results_objs (add_loop a d s) r = results_objs s r)"
proof (induction d arbitrary: s)
  case Nil
  then show ?case by simp
next
  case (Cons e d)
  obtain k p where e: "e = (k, p)" by (cases e)
  show ?case
    by (cases "map_of (logs (results_objs s a)) k") (simp_all add: e Cons.IH)
qed

section \<open>The effect of run\<close>

lemma exec_stmt_call:
  "call_of c st = Some (k, msg) \<Longrightarrow> exec_stmt c m st s = log (res_of s m) k msg s"
  by (cases st) (auto simp: res_of_def log_default_def log_ok_def log_info_def log_warning_def log_failure_def)

lemma call_of_level: "call_of c st = Some (k, msg) \<Longrightarrow> k \<in> set (level_list c)"
  by (cases st) (auto simp: level_list_def)

lemma call_of_None: "call_of c st = None \<Longrightarrow> \<exists>e. st = Raise e"
  by (cases st) auto

lemma call_levels: "fst ` set (List.map_filter (call_of c) sts) \<subseteq> set (level_list c)"
proof
  fix k assume "k \<in> fst ` set (List.map_filter (call_of c) sts)"
  then obtain msg where "(k, msg) \<in> set (List.map_filter (call_of c) sts)" by auto
  then obtain st where "call_of c st = Some (k, msg)"
    unfolding map_filter_def by fastforce
  then show "k \<in> set (level_list c)" by (rule call_of_level)
qed

lemma exec_body_log_all:
  "set (level_list c) \<subseteq> fst ` set (logs (results_objs s (res_of s m))) \<Longrightarrow>
   exec_body c m sts s =
     (case raises sts of
        Some e \<Rightarrow> Inl e
      | None \<Rightarrow> log_all (res_of s m) (List.map_filter (call_of c) sts) s)"
proof (induction sts arbitrary: s)
  case Nil
  then show ?case by (simp add: map_filter_simps)
next
  case (Cons st sts)
  show ?case
  proof (cases "call_of c st")
    case None
    then obtain e where "st = Raise e" using call_of_None by blast
    then show ?thesis by simp
  next
    case (Some a)
    obtain k msg where a: "a = (k, msg)" by (cases a)
    have ex: "exec_stmt c m st s = log (res_of s m) k msg s"
      using Some a by (simp add: exec_stmt_call)
    have "k \<in> set (level_list c)" using Some a call_of_level by blast
    with Cons.prems obtain p where p: "map_of (logs (results_objs s (res_of s m))) k = Some p"
      by (metis domD dom_map_of_conv_image_fst subsetD)
    let ?s1 = "s\<lparr>list_objs := (list_objs s)(p := list_objs s p @ [msg])\<rparr>"
    have l: "log (res_of s m) k msg s = Inr ?s1" by (simp add: log_def p)
    have r1: "res_of ?s1 m = res_of s m" by (simp add: res_of_def)
    have ih: "exec_body c m sts ?s1 =
      (case raises sts of Some e \<Rightarrow> Inl e
       | None \<Rightarrow> log_all (res_of ?s1 m) (List.map_filter (call_of c) sts) ?s1)"
      using Cons.prems by (intro Cons.IH) (simp add: res_of_def)
    have rs: "raises (st # sts) = raises sts" using Some by (cases st) auto
    show ?thesis
      using ex l ih r1 rs Some a by (simp add: map_filter_simps split: option.splits)
  qed
qed

lemma run_raises:
  assumes "set (level_list c) \<subseteq> set (keys_of s (res_of s m))"
    and "raises (get_impl (monitoring_objs s m) device) = Some e"
  shows "run c m device s = Inl e"
proof -
  have "set (level_list c) \<subseteq> fst ` set (logs (results_objs s (res_of s m)))"
    using assms(1) by (simp add: keys_of_def)
  from exec_body_log_all[OF this] assms(2) show ?thesis by (simp add: run_def)
qed

lemma run_effect:
  assumes ok: "results_ok c s (res_of s m)"
    and nr: "raises (get_impl (monitoring_objs s m) device) = None"
  shows "\<exists>s'. run c m device s = Inr (res_of s m, s') \<and> results_objs s' = results_objs s
           \<and> monitoring_objs s' = monitoring_objs s \<and> next_ref s' = next_ref s
           \<and> (\<forall>l. bucket s' (res_of s m) l =
                 bucket s (res_of s m) l @ logged c (get_impl (monitoring_objs s m) device) l)
           \<and> (\<forall>x. x \<notin> set (refs_of s (res_of s m)) \<longrightarrow> list_objs s' x = list_objs s x)"
proof -
  let ?r = "res_of s m" and ?calls = "List.map_filter (call_of c) (get_impl (monitoring_objs s m) device)"
  have keys: "set (keys_of s ?r) = set (level_list c)" and inj: "distinct (refs_of s ?r)"
    using ok by (simp_all add: results_ok_def)
  have sub: "set (level_list c) \<subseteq> fst ` set (logs (results_objs s ?r))"
    using keys by (simp add: keys_of_def)
  have ex: "exec_body c m (get_impl (monitoring_objs s m) device) s = log_all ?r ?calls s"
    using exec_body_log_all[OF sub] nr by simp
  have "fst ` set ?calls \<subseteq> set (keys_of s ?r)" using call_levels keys by blast
  from log_all_effect[OF this inj] obtain s' where
    s': "log_all ?r ?calls s = Inr s'" "results_objs s' = results_objs s"
      "monitoring_objs s' = monitoring_objs s" "next_ref s' = next_ref s"
      "\<forall>l. bucket s' ?r l = bucket s ?r l @ map snd (filter (\<lambda>(k, msg). k = l) ?calls)"
      "\<forall>x. x \<notin> set (refs_of s ?r) \<longrightarrow> list_objs s' x = list_objs s x"
    by blast
  have "run c m device s = Inr (?r, s')"
    using ex s'(1,3) by (simp add: run_def res_of_def)
  then show ?thesis using s' by (auto simp: logged_def)
qed

section \<open>The example store\<close>

lemma example_levels_ordered: "levels_ordered example_levels"
  by (simp add: levels_ordered_def example_levels_def)

lemma example_store_logs:
  "logs (results_objs example_store (Suc 0)) = [(0, 2), (10, 3), (20, 4), (30, 5), (40, 6)]"
  "logs (results_objs example_store 8) = [(0, 9), (10, 10), (20, 11), (30, 12), (40, 13)]"
  "logs (results_objs example_store 15) = [(0, 16), (10, 17), (20, 18), (30, 19), (40, 20)]"
  by (simp_all add: example_store_def Monitoring_init_def MonitoringResults_init_def Let_def
      example_levels_def empty_store_def)

lemma example_store_monitors:
  "results (monitoring_objs example_store 0) = 1"
  "results (monitoring_objs example_store 7) = 8"
  "results (monitoring_objs example_store 14) = 15"
  "get_impl (monitoring_objs example_store 0) = ping_body"
  "get_impl (monitoring_objs example_store 7) = latency_body"
  "get_impl (monitoring_objs example_store 14) = broken_body"
  "next_ref example_store = 21"
  by (simp_all add: example_store_def Monitoring_init_def MonitoringResults_init_def Let_def
      example_levels_def empty_store_def)

lemma example_store_lists: "list_objs example_store p = []"
  by (simp add: example_store_def Monitoring_init_def MonitoringResults_init_def Let_def
      example_levels_def empty_store_def)

lemma example_store_ok:
  "results_ok example_levels example_store 1"
  "results_ok example_levels example_store 8"
  "results_ok example_levels example_store 15"
  by (simp_all add: results_ok_def keys_of_def refs_of_def example_store_logs level_list_def)
     (auto simp: example_levels_def)

lemma example_run_eq:
  "example_run = example_store\<lparr>list_objs := (list_objs example_store)
     (3 := [''ping succeeded''], 12 := [''high latency''], 13 := [''unreachable''])\<rparr>"
  by (simp add: example_run_def run_def example_store_monitors ping_body_def latency_body_def
      log_ok_def log_warning_def log_failure_def log_def example_store_logs example_levels_def
      example_store_lists)

lemma example_run_objs: "results_objs example_run = results_objs example_store"
  by (simp add: example_run_eq)

lemma example_run_ok:
  "results_ok example_levels example_run (Suc 0)"
  "results_ok example_levels example_run 8"
  "results_ok example_levels example_run 15"
  using example_store_ok by (simp_all add: shape_cong[OF example_run_objs])

lemma example_run_buckets:
  "bucket example_run 8 (LOG_FAILURE example_levels) = [''unreachable'']"
  "bucket example_run 8 (LOG_WARNING example_levels) = [''high latency'']"
  by (simp_all add: bucket_def example_run_eq example_store_logs example_levels_def)

lemma example_raises:
  "raises (ping_body d) = None" "raises (latency_body d) = None"
  "raises (broken_body d) = Some (RuntimeError ''boom'')"
  by (simp_all add: ping_body_def latency_body_def broken_body_def)

lemma example_modules_ok:
  "modules_ok example_levels example_store [0, 7]"
  "modules_ok example_levels example_store [0, 14, 7]"
  using example_store_ok
  by (simp_all add: modules_ok_def res_of_def example_store_monitors refs_of_def example_store_logs)

section \<open>MonitoringResults: log and get_messages\<close>

text \<open>
  C6. For every sequence of calls \<^verbatim>\<open>log(level, message)\<close> at the five levels and every
  level \<^verbatim>\<open>l\<close> of the five, the sequence runs without an error and \<^verbatim>\<open>get_messages(l)\<close>
  then returns a list that holds exactly the texts logged at \<^verbatim>\<open>l\<close>, in the order of the
  calls: on a log fresh from \<^verbatim>\<open>__init__\<close> nothing else, and on any log of the standard
  shape the texts it held at \<^verbatim>\<open>l\<close> before, followed by them. A text logged at another level
  is not in the list.
\<close>

theorem get_messages_logged:
  assumes lv: "levels_ordered c" and calls: "fst ` set calls \<subseteq> set (level_list c)"
    and l: "l \<in> set (level_list c)"
  shows "(MonitoringResults_init c s = (r, s0) \<longrightarrow>
           (\<exists>s' p. log_all r calls s0 = Inr s' \<and> get_messages r l s' = Inr p \<and>
              list_objs s' p = map snd (filter (\<lambda>(k, msg). k = l) calls))) \<and>
         (results_ok c s r \<longrightarrow>
           (\<exists>s' p. log_all r calls s = Inr s' \<and> get_messages r l s' = Inr p \<and>
              list_objs s' p = bucket s r l @ map snd (filter (\<lambda>(k, msg). k = l) calls)))"
proof (intro conjI impI)
  assume i: "MonitoringResults_init c s = (r, s0)"
  from log_all_messages[OF init_effect(2)[OF lv i] calls l] init_effect(3)[OF lv i]
  show "\<exists>s' p. log_all r calls s0 = Inr s' \<and> get_messages r l s' = Inr p \<and>
              list_objs s' p = map snd (filter (\<lambda>(k, msg). k = l) calls)"
    by simp
next
  assume "results_ok c s r"
  then show "\<exists>s' p. log_all r calls s = Inr s' \<and> get_messages r l s' = Inr p \<and>
              list_objs s' p = bucket s r l @ map snd (filter (\<lambda>(k, msg). k = l) calls)"
    using calls l by (rule log_all_messages)
qed

theorem get_messages_logged_witness:
  "levels_ordered example_levels \<and>
   fst ` set [(10, ''ping succeeded''), (40, ''unreachable''), (10, ''again'')]
     \<subseteq> set (level_list example_levels) \<and>
   10 \<in> set (level_list example_levels) \<and>
   (\<exists>s' p. log_all 21 [(10, ''ping succeeded''), (40, ''unreachable''), (10, ''again'')]
              (snd (MonitoringResults_init example_levels example_store)) = Inr s' \<and>
            get_messages 21 10 s' = Inr p \<and> list_objs s' p = [''ping succeeded'', ''again''])"
proof -
  have h: "fst ` set [(10, ''ping succeeded''), (40, ''unreachable''), (10, ''again'')]
     \<subseteq> set (level_list example_levels)" "10 \<in> set (level_list example_levels)"
    by (simp_all add: level_list_def example_levels_def)
  have i: "MonitoringResults_init example_levels example_store =
      (21, snd (MonitoringResults_init example_levels example_store))"
    by (simp add: MonitoringResults_init_def Let_def example_store_monitors)
  from get_messages_logged [OF example_levels_ordered h, of example_store 21
      "snd (MonitoringResults_init example_levels example_store)"] i
  show ?thesis using example_levels_ordered h by simp
qed

section \<open>MonitoringResults: get_worst_message\<close>

text \<open>
  C2. On every log of the standard shape \<^verbatim>\<open>get_worst_message\<close> returns a message and
  raises nothing. When all five buckets are empty the message is \<^verbatim>\<open>(LOG_DEFAULT, "")\<close>.
  Otherwise its level is one of the five with a bucket that is not empty, its text is
  the first text of that bucket, and no level with a bucket that is not empty is more
  severe: the precedence is FAILURE, WARNING, INFO, OK, DEFAULT.
\<close>

theorem get_worst_message_most_severe:
  assumes lv: "levels_ordered c" and ok: "results_ok c s r"
  shows "\<exists>m. get_worst_message c r s = Inr m \<and>
           (if \<forall>l \<in> set (level_list c). bucket s r l = []
            then m = \<lparr>level = LOG_DEFAULT c, message = ''''\<rparr>
            else level m \<in> set (level_list c) \<and> bucket s r (level m) \<noteq> [] \<and>
                 message m = hd (bucket s r (level m)) \<and>
                 (\<forall>l \<in> set (level_list c). bucket s r l \<noteq> [] \<longrightarrow> l \<le> level m))"
proof -
  have keys: "set (keys_of s r) = set (level_list c)" using ok by (simp add: results_ok_def)
  have b: "bucket_at r (LOG_FAILURE c) s = Inr (bucket s r (LOG_FAILURE c))"
    "bucket_at r (LOG_WARNING c) s = Inr (bucket s r (LOG_WARNING c))"
    "bucket_at r (LOG_INFO c) s = Inr (bucket s r (LOG_INFO c))"
    "bucket_at r (LOG_OK c) s = Inr (bucket s r (LOG_OK c))"
    "bucket_at r (LOG_DEFAULT c) s = Inr (bucket s r (LOG_DEFAULT c))"
    by (rule bucket_at_bucket, simp add: keys level_list_def)+
  have ord: "LOG_DEFAULT c < LOG_OK c" "LOG_OK c < LOG_INFO c" "LOG_INFO c < LOG_WARNING c"
    "LOG_WARNING c < LOG_FAILURE c"
    using lv by (simp_all add: levels_ordered_def)
  show ?thesis
  proof (cases "bucket s r (LOG_FAILURE c) = []")
    case False
    then show ?thesis using ord by (simp add: get_worst_message_def b level_list_def)
  next
    case f: True
    show ?thesis
    proof (cases "bucket s r (LOG_WARNING c) = []")
      case False
      then show ?thesis using ord f by (simp add: get_worst_message_def b level_list_def)
    next
      case w: True
      show ?thesis
      proof (cases "bucket s r (LOG_INFO c) = []")
        case False
        then show ?thesis using ord f w by (simp add: get_worst_message_def b level_list_def)
      next
        case i: True
        show ?thesis
        proof (cases "bucket s r (LOG_OK c) = []")
          case False
          then show ?thesis using ord f w i by (simp add: get_worst_message_def b level_list_def)
        next
          case o: True
          show ?thesis
          proof (cases "bucket s r (LOG_DEFAULT c) = []")
            case False
            then show ?thesis
              using ord f w i o by (simp add: get_worst_message_def b level_list_def)
          next
            case True
            then show ?thesis
              using ord f w i o by (simp add: get_worst_message_def b level_list_def)
          qed
        qed
      qed
    qed
  qed
qed

theorem get_worst_message_most_severe_witness:
  "levels_ordered example_levels \<and> results_ok example_levels example_run 8 \<and>
   get_worst_message example_levels 8 example_run = Inr \<lparr>level = 40, message = ''unreachable''\<rparr>"
proof -
  from get_worst_message_most_severe [OF example_levels_ordered example_run_ok(2)]
  obtain m where m: "get_worst_message example_levels 8 example_run = Inr m"
    and sel: "if \<forall>l \<in> set (level_list example_levels). bucket example_run 8 l = []
        then m = \<lparr>level = LOG_DEFAULT example_levels, message = ''''\<rparr>
        else level m \<in> set (level_list example_levels) \<and> bucket example_run 8 (level m) \<noteq> [] \<and>
             message m = hd (bucket example_run 8 (level m)) \<and>
             (\<forall>l \<in> set (level_list example_levels). bucket example_run 8 l \<noteq> [] \<longrightarrow> l \<le> level m)"
    by blast
  have f: "LOG_FAILURE example_levels \<in> set (level_list example_levels)"
    by (simp add: level_list_def)
  have ne: "\<not> (\<forall>l \<in> set (level_list example_levels). bucket example_run 8 l = [])"
  proof
    assume "\<forall>l \<in> set (level_list example_levels). bucket example_run 8 l = []"
    with f have "bucket example_run 8 (LOG_FAILURE example_levels) = []" by blast
    with example_run_buckets(1) show False by simp
  qed
  from sel ne have lm: "level m \<in> set (level_list example_levels)"
    and hd: "message m = hd (bucket example_run 8 (level m))"
    and all: "\<forall>l \<in> set (level_list example_levels). bucket example_run 8 l \<noteq> [] \<longrightarrow> l \<le> level m"
    by simp_all
  from all f example_run_buckets(1) have mx: "LOG_FAILURE example_levels \<le> level m"
    by (metis list.distinct(1))
  from lm mx have "level m = 40" by (auto simp: level_list_def example_levels_def)
  moreover from this hd have "message m = ''unreachable''"
    using example_run_buckets(1) by (simp add: example_levels_def)
  ultimately have "m = \<lparr>level = 40, message = ''unreachable''\<rparr>" by simp
  with m example_levels_ordered example_run_ok(2) show ?thesis by simp
qed

section \<open>MonitoringResults: add\<close>

text \<open>
  C3. Adding a value that equals zero returns \<^verbatim>\<open>self\<close> and leaves the whole store, so
  every bucket, as it was. Adding a value that neither equals zero nor is a
  \<^verbatim>\<open>MonitoringResults\<close> raises \<^verbatim>\<open>ValueError\<close>.
\<close>

theorem add_identity_or_error:
  "(eq_zero v \<longrightarrow> add a v s = Inr (a, s)) \<and>
   (\<not> eq_zero v \<and> \<not> is_results v \<longrightarrow> add a v s = Inl ValueError)"
  by (cases v) (auto simp: add_def)

theorem add_identity_or_error_witness:
  "add 0 (PyInt 0) (empty_store :: nat store) = Inr (0, empty_store) \<and>
   add 0 (PyStr ''x'') (empty_store :: nat store) = Inl ValueError"
  using add_identity_or_error [of "PyInt 0" 0 "empty_store :: nat store"]
    add_identity_or_error [of "PyStr ''x''" 0 "empty_store :: nat store"]
  by simp



text \<open>
  C8. \<^verbatim>\<open>a + b\<close> changes \<^verbatim>\<open>a\<close> only. For two logs \<^verbatim>\<open>a\<close> and \<^verbatim>\<open>b\<close>, two objects that
  share no list, every bucket of \<^verbatim>\<open>b\<close> holds after the call what it held before; so does
  every other object but \<^verbatim>\<open>a\<close> and every list that was not a bucket of \<^verbatim>\<open>a\<close>. This
  holds for any keys the two dictionaries have, the five standard ones among them.
\<close>

theorem add_leaves_other_unchanged:
  assumes ne: "a \<noteq> b" and db: "distinct (keys_of s b)" and sep: "separate s a b"
  shows "\<exists>s'. add a (PyResults b) s = Inr (a, s') \<and>
           (\<forall>l. bucket s' b l = bucket s b l) \<and>
           (\<forall>r. r \<noteq> a \<longrightarrow> results_objs s' r = results_objs s r) \<and>
           (\<forall>p. p \<notin> set (refs_of s a) \<longrightarrow> list_objs s' p = list_objs s p) \<and>
           monitoring_objs s' = monitoring_objs s"
proof -
  let ?B = "logs (results_objs s b)"
  let ?s' = "add_loop a ?B s"
  have d: "distinct (map fst ?B)" using db by (simp add: keys_of_def)
  have inA: "\<forall>(k, p) \<in> set ?B. \<forall>q. map_of (logs (results_objs s a)) k = Some q
               \<longrightarrow> q \<notin> - set (refs_of s a)"
    by (force simp: refs_of_def dest!: map_of_SomeD)
  have lists: "list_objs ?s' p = list_objs s p" if "p \<notin> set (refs_of s a)" for p
    using add_loop_protect[OF d inA] that by simp
  have objs: "results_objs ?s' r = results_objs s r" if "r \<noteq> a" for r
    using add_loop_others that by blast
  have "bucket ?s' b l = bucket s b l" for l
  proof -
    have "list_objs ?s' p = list_objs s p" if "(l, p) \<in> set ?B" for p
      using that sep by (intro lists) (force simp: separate_def refs_of_def)
    then show ?thesis
      using objs[of b] ne by (auto simp: bucket_def split: option.splits dest!: map_of_SomeD)
  qed
  moreover have "monitoring_objs ?s' = monitoring_objs s" using add_loop_others by blast
  ultimately show ?thesis using lists objs by (simp add: add_results)
qed

theorem add_leaves_other_unchanged_witness:
  "(1::nat) \<noteq> 8 \<and> distinct (keys_of example_run 8) \<and> separate example_run 1 8 \<and>
   (\<exists>s'. add 1 (PyResults 8) example_run = Inr (1, s') \<and>
           (\<forall>l. bucket s' 8 l = bucket example_run 8 l) \<and>
           (\<forall>r. r \<noteq> 1 \<longrightarrow> results_objs s' r = results_objs example_run r) \<and>
           (\<forall>p. p \<notin> set (refs_of example_run 1) \<longrightarrow> list_objs s' p = list_objs example_run p) \<and>
           monitoring_objs s' = monitoring_objs example_run)"
proof -
  have h: "(1::nat) \<noteq> 8" "distinct (keys_of example_run 8)" "separate example_run 1 8"
    by (simp_all add: separate_def keys_of_def refs_of_def example_run_objs example_store_logs)
  show ?thesis using add_leaves_other_unchanged [OF h] h by simp
qed

section \<open>MonitoringResults: get_all_messages\<close>

lemma all_messages_unsorted:
  assumes d: "distinct (keys_of s r)"
  shows "concat (map (\<lambda>(lvl, p). map (\<lambda>msg. \<lparr>level = lvl, message = msg\<rparr>) (list_objs s p))
                    (logs (results_objs s r))) =
         concat (map (\<lambda>l. map (\<lambda>msg. \<lparr>level = l, message = msg\<rparr>) (bucket s r l)) (keys_of s r))"
proof -
  have "map (\<lambda>(lvl, p). map (\<lambda>msg. \<lparr>level = lvl, message = msg\<rparr>) (list_objs s p))
            (logs (results_objs s r)) =
        map (\<lambda>e. map (\<lambda>msg. \<lparr>level = fst e, message = msg\<rparr>) (bucket s r (fst e)))
            (logs (results_objs s r))"
    by (rule map_cong[OF refl]) (use d in \<open>auto simp: bucket_def keys_of_def\<close>)
  then have "concat (map (\<lambda>(lvl, p). map (\<lambda>msg. \<lparr>level = lvl, message = msg\<rparr>) (list_objs s p))
            (logs (results_objs s r))) =
        concat (map (\<lambda>e. map (\<lambda>msg. \<lparr>level = fst e, message = msg\<rparr>) (bucket s r (fst e)))
            (logs (results_objs s r)))"
    by (rule arg_cong)
  also have "\<dots> = concat (map (\<lambda>l. map (\<lambda>msg. \<lparr>level = l, message = msg\<rparr>) (bucket s r l))
      (keys_of s r))"
    by (simp only: keys_of_def map_map comp_def)
  finally show ?thesis .
qed

lemma mset_concat_map_perm:
  "mset xs = mset ys \<Longrightarrow> mset (concat (map f xs)) = mset (concat (map f ys))"
proof -
  have "mset (concat (map f zs)) = sum_mset (image_mset (\<lambda>x. mset (f x)) (mset zs))" for zs
    by (induction zs) simp_all
  moreover assume "mset xs = mset ys"
  ultimately show ?thesis by simp
qed

text \<open>
  C7. On a log of the standard shape \<^verbatim>\<open>get_all_messages\<close> returns each message of each
  bucket exactly once, tagged with the level of its bucket (the result is a permutation
  of the tagged buckets), in order of descending level; when the FAILURE bucket is not
  empty, the result is not empty and its first element is tagged FAILURE.
\<close>

theorem get_all_messages_descending:
  assumes lv: "levels_ordered c" and ok: "results_ok c s r"
  shows "mset (get_all_messages r s) =
           mset (concat (map (\<lambda>l. map (\<lambda>msg. \<lparr>level = l, message = msg\<rparr>) (bucket s r l))
                             (level_list c))) \<and>
         sorted_wrt (\<lambda>m m'. level m' \<le> level m) (get_all_messages r s) \<and>
         (bucket s r (LOG_FAILURE c) \<noteq> [] \<longrightarrow>
            get_all_messages r s \<noteq> [] \<and> level (hd (get_all_messages r s)) = LOG_FAILURE c)"
proof -
  have keys: "set (keys_of s r) = set (level_list c)" and d: "distinct (keys_of s r)"
    using ok by (simp_all add: results_ok_def)
  define f where "f = (\<lambda>l. map (\<lambda>msg. \<lparr>level = l, message = msg\<rparr>) (bucket s r l))"
  define out where "out = get_all_messages r s"
  have out: "out = sort_key (\<lambda>m. - level m) (concat (map f (keys_of s r)))"
    unfolding out_def get_all_messages_def all_messages_unsorted[OF d] f_def ..
  have km: "mset (keys_of s r) = mset (level_list c)"
    using keys d levels_distinct[OF lv] by (simp add: set_eq_iff_mset_eq_distinct)
  have "mset out = mset (concat (map f (keys_of s r)))" unfolding out by simp
  also have "\<dots> = mset (concat (map f (level_list c)))"
    using km by (rule mset_concat_map_perm)
  finally have m: "mset out = mset (concat (map f (level_list c)))" .
  have "sorted (map (\<lambda>m. - level m) out)" unfolding out by simp
  then have srt: "sorted_wrt (\<lambda>m m'. level m' \<le> level m) out"
    by (simp add: sorted_map)
  have lvls: "level m \<in> set (level_list c)" if "m \<in> set out" for m
  proof -
    from that have "m \<in># mset (concat (map f (level_list c)))" using m by (metis set_mset_mset)
    then show ?thesis by (auto simp: f_def)
  qed
  have hd: "out \<noteq> [] \<and> level (hd out) = LOG_FAILURE c" if ne: "bucket s r (LOG_FAILURE c) \<noteq> []"
  proof -
    define x where "x = \<lparr>level = LOG_FAILURE c, message = hd (bucket s r (LOG_FAILURE c))\<rparr>"
    have "x \<in> set (concat (map f (level_list c)))"
      using ne by (auto simp: f_def x_def level_list_def)
    then have xin: "x \<in> set out" using m by (metis set_mset_mset)
    then obtain y ys where o: "out = y # ys" by (cases out) auto
    have "level x \<le> level y" using srt xin unfolding o by auto
    moreover have "level y \<in> set (level_list c)" using lvls[of y] o by simp
    then have "level y \<le> LOG_FAILURE c" using lv by (auto simp: level_list_def levels_ordered_def)
    ultimately show ?thesis by (simp add: o x_def)
  qed
  show ?thesis using m srt hd unfolding out_def f_def by blast
qed

theorem get_all_messages_descending_witness:
  "levels_ordered example_levels \<and> results_ok example_levels example_run 8 \<and>
   bucket example_run 8 (LOG_FAILURE example_levels) \<noteq> [] \<and>
   mset (get_all_messages 8 example_run) =
     mset (concat (map (\<lambda>l. map (\<lambda>msg. \<lparr>level = l, message = msg\<rparr>) (bucket example_run 8 l))
                       (level_list example_levels))) \<and>
   sorted_wrt (\<lambda>m m'. level m' \<le> level m) (get_all_messages 8 example_run) \<and>
   get_all_messages 8 example_run \<noteq> [] \<and>
   level (hd (get_all_messages 8 example_run)) = LOG_FAILURE example_levels"
  using get_all_messages_descending [OF example_levels_ordered example_run_ok(2)]
    example_levels_ordered example_run_ok(2) example_run_buckets(1)
  by simp



section \<open>Monitoring: log_failure and run\<close>

text \<open>
  C1. The claim: \<^verbatim>\<open>log_failure(message)\<close> appends the message to the FAILURE bucket of the
  instance's log and sets the instance's \<^verbatim>\<open>failed\<close> flag. The method only appends: on a
  fresh instance of the base class, after \<^verbatim>\<open>log_failure("unreachable")\<close> the FAILURE
  bucket holds the message and \<^verbatim>\<open>failed\<close> is still \<^verbatim>\<open>False\<close>.
\<close>

theorem log_failure_keeps_failed_False:
  "\<exists>m s1 s2. Monitoring_init example_levels Monitoring_get (empty_store :: nat store) = (m, s1)
     \<and> log_failure example_levels m ''unreachable'' s1 = Inr s2
     \<and> bucket_at (results (monitoring_objs s2 m)) (LOG_FAILURE example_levels) s2
         = Inr [''unreachable'']
     \<and> \<not> failed (monitoring_objs s2 m)"
  by (simp add: Monitoring_init_def MonitoringResults_init_def Let_def log_failure_def log_def
      bucket_at_def example_levels_def empty_store_def)

text \<open>
  C9. \<^verbatim>\<open>run\<close> resets nothing. When the body of \<^verbatim>\<open>get\<close> does not raise, two calls of
  \<^verbatim>\<open>run\<close> on one instance both return the same object, the log the instance was made
  with; the instance itself is unchanged; and after the second call every bucket holds
  what it held before the first, then the messages of the first run, then those of the
  second.
\<close>

theorem run_twice_accumulates:
  assumes ok: "results_ok c s (res_of s m)"
    and n1: "raises (get_impl (monitoring_objs s m) t1) = None"
    and n2: "raises (get_impl (monitoring_objs s m) t2) = None"
  shows "\<exists>s1 s2. run c m t1 s = Inr (res_of s m, s1) \<and> run c m t2 s1 = Inr (res_of s m, s2) \<and>
           monitoring_objs s2 = monitoring_objs s \<and>
           (\<forall>l. bucket s1 (res_of s m) l =
                  bucket s (res_of s m) l @ logged c (get_impl (monitoring_objs s m) t1) l) \<and>
           (\<forall>l. bucket s2 (res_of s m) l =
                  bucket s (res_of s m) l @ logged c (get_impl (monitoring_objs s m) t1) l
                    @ logged c (get_impl (monitoring_objs s m) t2) l)"
proof -
  from run_effect[OF ok n1] obtain s1 where
    s1: "run c m t1 s = Inr (res_of s m, s1)" "results_objs s1 = results_objs s"
      "monitoring_objs s1 = monitoring_objs s"
      "\<forall>l. bucket s1 (res_of s m) l =
        bucket s (res_of s m) l @ logged c (get_impl (monitoring_objs s m) t1) l"
    by blast
  have r1: "res_of s1 m = res_of s m" by (simp add: res_of_def s1(3))
  have ok1: "results_ok c s1 (res_of s1 m)" using ok by (simp add: r1 shape_cong[OF s1(2)])
  have n2': "raises (get_impl (monitoring_objs s1 m) t2) = None" using n2 by (simp add: s1(3))
  from run_effect[OF ok1 n2'] obtain s2 where
    s2: "run c m t2 s1 = Inr (res_of s1 m, s2)" "monitoring_objs s2 = monitoring_objs s1"
      "\<forall>l. bucket s2 (res_of s1 m) l =
        bucket s1 (res_of s1 m) l @ logged c (get_impl (monitoring_objs s1 m) t2) l"
    by blast
  show ?thesis
    by (rule exI[of _ s1], rule exI[of _ s2]) (use s1 s2 r1 in simp)
qed

theorem run_twice_accumulates_witness:
  "results_ok example_levels example_store (res_of example_store 7) \<and>
   raises (get_impl (monitoring_objs example_store 7) 3) = None \<and>
   raises (get_impl (monitoring_objs example_store 7) 4) = None \<and>
   (\<exists>s1 s2. run example_levels 7 3 example_store = Inr (8, s1) \<and>
      run example_levels 7 4 s1 = Inr (8, s2) \<and>
      monitoring_objs s2 = monitoring_objs example_store \<and>
      bucket s1 8 30 = [''high latency''] \<and>
      bucket s2 8 30 = [''high latency'', ''high latency''])"
proof -
  have h: "results_ok example_levels example_store (res_of example_store 7)"
    "raises (get_impl (monitoring_objs example_store 7) 3) = None"
    "raises (get_impl (monitoring_objs example_store 7) 4) = None"
    using example_store_ok(2) by (simp_all add: res_of_def example_store_monitors example_raises)
  have e: "bucket example_store 8 l = []" for l
    by (simp add: bucket_def example_store_lists split: option.splits)
  have lg: "logged example_levels (latency_body d) 30 = [''high latency'']" for d
    by (simp add: logged_def latency_body_def map_filter_simps example_levels_def)
  from run_twice_accumulates [OF h] obtain s1 s2 where
    "run example_levels 7 3 example_store = Inr (8, s1)" "run example_levels 7 4 s1 = Inr (8, s2)"
    "monitoring_objs s2 = monitoring_objs example_store"
    "bucket s1 8 30 = [''high latency'']" "bucket s2 8 30 = [''high latency'', ''high latency'']"
    by (auto simp: res_of_def example_store_monitors e lg)
  then show ?thesis using h by blast
qed

section \<open>The function get\<close>

lemma get_loop_effect:
  assumes "results_ok c s R"
    and "\<forall>m \<in> set ms. results_ok c s (res_of s m)"
    and "distinct (concat (map (\<lambda>m. refs_of s (res_of s m)) ms))"
    and "\<forall>m \<in> set ms. separate s R (res_of s m)"
    and "\<forall>m \<in> set ms. raises (get_impl (monitoring_objs s m) device) = None"
  shows "\<exists>s'. get_loop c R ms device s = Inr (R, s') \<and> results_objs s' = results_objs s
           \<and> monitoring_objs s' = monitoring_objs s \<and> next_ref s' = next_ref s
           \<and> (\<forall>l. bucket s' R l = bucket s R l @
                 concat (map (\<lambda>m. bucket s (res_of s m) l
                                  @ logged c (get_impl (monitoring_objs s m) device) l) ms))
           \<and> (\<forall>m \<in> set ms. \<forall>l. bucket s' (res_of s m) l =
                 bucket s (res_of s m) l @ logged c (get_impl (monitoring_objs s m) device) l)
           \<and> (\<forall>x. x \<notin> set (refs_of s R) \<union> (\<Union>m \<in> set ms. set (refs_of s (res_of s m)))
                 \<longrightarrow> list_objs s' x = list_objs s x)"
  using assms
proof (induction ms arbitrary: s)
  case Nil
  then show ?case by simp
next
  case (Cons m ms)
  let ?rm = "res_of s m"
  let ?F = "\<lambda>s m. refs_of s (res_of s m)"
  have okR: "results_ok c s R" and okm: "results_ok c s ?rm" and sepm: "separate s R ?rm"
    and nrm: "raises (get_impl (monitoring_objs s m) device) = None"
    using Cons.prems by simp_all
  have dis: "set (?F s m) \<inter> (\<Union>m' \<in> set ms. set (?F s m')) = {}"
    and dms: "distinct (concat (map (?F s) ms))"
    using Cons.prems(3) by auto
  \<comment> \<open>the call of run\<close>
  from run_effect[OF okm nrm] obtain s1 where
    s1: "run c m device s = Inr (?rm, s1)" "results_objs s1 = results_objs s"
      "monitoring_objs s1 = monitoring_objs s" "next_ref s1 = next_ref s"
      "\<And>l. bucket s1 ?rm l = bucket s ?rm l @ logged c (get_impl (monitoring_objs s m) device) l"
      "\<And>x. x \<notin> set (refs_of s ?rm) \<Longrightarrow> list_objs s1 x = list_objs s x"
    by blast
  \<comment> \<open>the call of add\<close>
  define s2 where "s2 = add_loop R (logs (results_objs s1 ?rm)) s1"
  have kk: "set (keys_of s1 ?rm) \<subseteq> set (keys_of s1 R)" "distinct (keys_of s1 ?rm)"
    "distinct (refs_of s1 R)" "separate s1 R ?rm"
    using okR okm sepm by (simp_all add: shape_cong[OF s1(2)] results_ok_def)
  note e2 = add_loop_effect[OF kk, folded s2_def]
  have r2: "results_objs s2 = results_objs s" using e2(1) s1(2) by simp
  have m2: "monitoring_objs s2 = monitoring_objs s" using e2(2) s1(3) by simp
  have res2: "res_of s2 m' = res_of s m'" for m' by (simp add: res_of_def m2)
  have step: "get_loop c R (m # ms) device s = get_loop c R ms device s2"
    by (simp add: s1(1) add_results s2_def)
  have l2: "list_objs s2 x = list_objs s x"
    if "x \<notin> set (refs_of s R)" "x \<notin> set (refs_of s ?rm)" for x
    using e2(5)[of x] s1(6)[of x] that by (simp add: shape_cong[OF s1(2)])
  have bR1: "bucket s1 R l = bucket s R l" for l
    by (rule bucket_frame[OF s1(2)], rule s1(6)) (use sepm in \<open>auto simp: separate_def\<close>)
  have bR2: "bucket s2 R l =
      bucket s R l @ bucket s ?rm l @ logged c (get_impl (monitoring_objs s m) device) l" for l
    by (simp add: e2(4) bR1 s1(5))
  have bm2: "bucket s2 ?rm l = bucket s ?rm l @ logged c (get_impl (monitoring_objs s m) device) l"
    for l
  proof -
    have "bucket s2 ?rm l = bucket s1 ?rm l"
      by (rule bucket_frame[OF e2(1)], rule e2(5))
         (use sepm in \<open>auto simp: separate_def shape_cong[OF s1(2)]\<close>)
    then show ?thesis by (simp add: s1(5))
  qed
  have bo2: "bucket s2 (res_of s m') l = bucket s (res_of s m') l" if "m' \<in> set ms" for m' l
  proof (rule bucket_frame[OF r2], rule l2)
    fix x assume x: "x \<in> set (refs_of s (res_of s m'))"
    from Cons.prems(4) that have "separate s R (res_of s m')" by simp
    with x show "x \<notin> set (refs_of s R)" by (auto simp: separate_def)
    from dis x that show "x \<notin> set (refs_of s ?rm)" by auto
  qed
  \<comment> \<open>the rest of the loop\<close>
  have "\<exists>s'. get_loop c R ms device s2 = Inr (R, s') \<and> results_objs s' = results_objs s2
           \<and> monitoring_objs s' = monitoring_objs s2 \<and> next_ref s' = next_ref s2
           \<and> (\<forall>l. bucket s' R l = bucket s2 R l @
                 concat (map (\<lambda>m. bucket s2 (res_of s2 m) l
                                  @ logged c (get_impl (monitoring_objs s2 m) device) l) ms))
           \<and> (\<forall>m \<in> set ms. \<forall>l. bucket s' (res_of s2 m) l =
                 bucket s2 (res_of s2 m) l @ logged c (get_impl (monitoring_objs s2 m) device) l)
           \<and> (\<forall>x. x \<notin> set (refs_of s2 R) \<union> (\<Union>m \<in> set ms. set (refs_of s2 (res_of s2 m)))
                 \<longrightarrow> list_objs s' x = list_objs s2 x)"
    using Cons.prems dms by (intro Cons.IH) (simp_all add: shape_cong[OF r2] res2 m2)
  then obtain s' where
    s': "get_loop c R ms device s2 = Inr (R, s')" "results_objs s' = results_objs s"
      "monitoring_objs s' = monitoring_objs s" "next_ref s' = next_ref s"
      "\<And>l. bucket s' R l = bucket s2 R l @
          concat (map (\<lambda>m. bucket s2 (res_of s m) l
                           @ logged c (get_impl (monitoring_objs s m) device) l) ms)"
      "\<And>m' l. m' \<in> set ms \<Longrightarrow> bucket s' (res_of s m') l =
          bucket s2 (res_of s m') l @ logged c (get_impl (monitoring_objs s m') device) l"
      "\<And>x. x \<notin> set (refs_of s R) \<Longrightarrow> \<forall>m \<in> set ms. x \<notin> set (refs_of s (res_of s m)) \<Longrightarrow>
          list_objs s' x = list_objs s2 x"
    using r2 m2 e2(3) s1(4) by (auto simp: shape_cong[OF r2] res2)
  have cR: "bucket s' R l = bucket s R l @
      concat (map (\<lambda>m. bucket s (res_of s m) l
                       @ logged c (get_impl (monitoring_objs s m) device) l) (m # ms))" for l
  proof -
    have "concat (map (\<lambda>m. bucket s2 (res_of s m) l
                          @ logged c (get_impl (monitoring_objs s m) device) l) ms)
        = concat (map (\<lambda>m. bucket s (res_of s m) l
                          @ logged c (get_impl (monitoring_objs s m) device) l) ms)"
      by (rule arg_cong[where f = concat], rule map_cong[OF refl]) (simp add: bo2)
    then show ?thesis by (simp only: s'(5) bR2 concat.simps list.map append_assoc)
  qed
  have cm: "bucket s' ?rm l = bucket s ?rm l @ logged c (get_impl (monitoring_objs s m) device) l"
    for l
  proof -
    have "bucket s' ?rm l = bucket s2 ?rm l"
    proof (rule bucket_frame, simp add: s'(2) r2, rule s'(7))
      fix x assume "x \<in> set (refs_of s2 ?rm)"
      then have x: "x \<in> set (refs_of s ?rm)" by (simp add: shape_cong[OF r2])
      with sepm show "x \<notin> set (refs_of s R)" by (auto simp: separate_def)
      from dis x show "\<forall>m \<in> set ms. x \<notin> set (refs_of s (res_of s m))" by auto
    qed
    then show ?thesis by (simp add: bm2)
  qed
  have co: "bucket s' (res_of s m') l =
      bucket s (res_of s m') l @ logged c (get_impl (monitoring_objs s m') device) l"
    if "m' \<in> set ms" for m' l
    using that by (simp add: s'(6) bo2)
  have fr: "list_objs s' x = list_objs s x"
    if "x \<notin> set (refs_of s R) \<union> (\<Union>m \<in> set (m # ms). set (refs_of s (res_of s m)))" for x
  proof -
    from that have "list_objs s' x = list_objs s2 x" by (intro s'(7)) auto
    also from that have "\<dots> = list_objs s x" by (intro l2) auto
    finally show ?thesis .
  qed
  show ?case
    by (rule exI[of _ s']) (use step s'(1-4) cR cm co fr in auto)
qed

lemma get_loop_append:
  "get_loop c R (pre @ post) device s =
     (case get_loop c R pre device s of
        Inl e \<Rightarrow> Inl e
      | Inr (R', s') \<Rightarrow> get_loop c R' post device s')"
  by (induction pre arbitrary: R s) (auto split: sum.splits)

lemma init_modules:
  assumes lv: "levels_ordered c" and ok: "modules_ok c s ms"
    and i: "MonitoringResults_init c s = (R, s0)"
  shows "results_ok c s0 R" and "monitoring_objs s0 = monitoring_objs s"
    and "\<forall>m \<in> set ms. results_ok c s0 (res_of s0 m)"
    and "distinct (concat (map (\<lambda>m. refs_of s0 (res_of s0 m)) ms))"
    and "\<forall>m \<in> set ms. separate s0 R (res_of s0 m)"
    and "\<forall>m \<in> set ms. \<forall>l. bucket s0 (res_of s0 m) l = bucket s (res_of s m) l"
    and "\<forall>l. bucket s0 R l = []"
proof -
  note e = init_effect[OF lv i]
  show "results_ok c s0 R" by (rule e(2))
  show m0: "monitoring_objs s0 = monitoring_objs s" by (rule e(7))
  have res0: "res_of s0 m = res_of s m" for m by (simp add: res_of_def m0)
  have objs: "results_objs s0 (res_of s m) = results_objs s (res_of s m)" if "m \<in> set ms" for m
  proof (rule e(5))
    from ok that have "res_of s m < next_ref s" by (simp add: modules_ok_def)
    then show "res_of s m \<noteq> R" by (simp add: e(1))
  qed
  have refs0: "refs_of s0 (res_of s0 m) = refs_of s (res_of s m)" if "m \<in> set ms" for m
    using shape_cong1(2)[OF objs[OF that]] by (simp add: res0)
  show "\<forall>m \<in> set ms. results_ok c s0 (res_of s0 m)"
  proof
    fix m assume m: "m \<in> set ms"
    with ok have "results_ok c s (res_of s m)" by (simp add: modules_ok_def)
    then show "results_ok c s0 (res_of s0 m)"
      using shape_cong1(3)[OF objs[OF m]] by (simp add: res0)
  qed
  have eq: "map (\<lambda>m. refs_of s0 (res_of s0 m)) ms = map (\<lambda>m. refs_of s (res_of s m)) ms"
    by (rule map_cong[OF refl]) (simp add: refs0)
  show "distinct (concat (map (\<lambda>m. refs_of s0 (res_of s0 m)) ms))"
    unfolding eq using ok by (simp add: modules_ok_def)
  have below: "p < next_ref s" if "m \<in> set ms" "p \<in> set (refs_of s (res_of s m))" for m p
    using ok that by (auto simp: modules_ok_def)
  show "\<forall>m \<in> set ms. separate s0 R (res_of s0 m)"
  proof
    fix m assume m: "m \<in> set ms"
    have "p \<notin> set (refs_of s0 R)" if "p \<in> set (refs_of s0 (res_of s0 m))" for p
    proof -
      from that have "p < next_ref s" using below[OF m] by (simp add: refs0[OF m])
      then show ?thesis by (simp add: e(4))
    qed
    then show "separate s0 R (res_of s0 m)"
      unfolding separate_def by blast
  qed
  show "\<forall>m \<in> set ms. \<forall>l. bucket s0 (res_of s0 m) l = bucket s (res_of s m) l"
  proof (intro ballI allI)
    fix m l assume m: "m \<in> set ms"
    have "list_objs s0 p = list_objs s p" if "(l, p) \<in> set (logs (results_objs s (res_of s m)))"
      for p
    proof (rule e(6))
      from that have "p \<in> set (refs_of s (res_of s m))" by (force simp: refs_of_def)
      from below[OF m this] show "p \<le> next_ref s" by simp
    qed
    then show "bucket s0 (res_of s0 m) l = bucket s (res_of s m) l"
      by (auto simp: bucket_def res0 objs[OF m] split: option.splits dest!: map_of_SomeD)
  qed
  show "\<forall>l. bucket s0 R l = []" by (simp add: e(3))
qed

text \<open>
  C5. \<^verbatim>\<open>get\<close> on a list of module instances as \<^verbatim>\<open>get_monitoring\<close> makes them (each
  with a log of its own). When no module raises, \<^verbatim>\<open>get\<close> returns a fresh log whose bucket
  at every level is the concatenation, in the order of the list, of the buckets of the
  logs that the modules' runs returned, and nothing else; each of those holds what the
  module's log held before, followed by what its run logged. When a module raises and
  none before it in the list does, \<^verbatim>\<open>get\<close> raises the same exception and returns no log.
\<close>

theorem get_folds_all_runs:
  assumes lv: "levels_ordered c" and ok: "modules_ok c s ms"
  shows "((\<forall>m \<in> set ms. raises (get_impl (monitoring_objs s m) device) = None) \<longrightarrow>
           (\<exists>s'. get c ms device s = Inr (next_ref s, s') \<and>
              (\<forall>l. bucket s' (next_ref s) l = concat (map (\<lambda>m. bucket s' (res_of s' m) l) ms)) \<and>
              (\<forall>m \<in> set ms. res_of s' m = res_of s m \<and>
                 (\<forall>l. bucket s' (res_of s m) l =
                    bucket s (res_of s m) l @ logged c (get_impl (monitoring_objs s m) device) l)))) \<and>
         (\<forall>pre m post e.
            ms = pre @ m # post \<and>
            (\<forall>m' \<in> set pre. raises (get_impl (monitoring_objs s m') device) = None) \<and>
            raises (get_impl (monitoring_objs s m) device) = Some e \<longrightarrow>
            get c ms device s = Inl e)"
proof -
  obtain R s0 where i: "MonitoringResults_init c s = (R, s0)" by (cases "MonitoringResults_init c s")
  have R: "R = next_ref s" by (rule init_effect(1)[OF lv i])
  have g: "get c ms' device s = get_loop c R ms' device s0" for ms' by (simp add: get_def i)
  note im = init_modules[OF lv ok i]
  have res0: "res_of s0 m = res_of s m" for m by (simp add: res_of_def im(2))
  \<comment> \<open>every module returns\<close>
  have all: "\<exists>s'. get c ms device s = Inr (next_ref s, s') \<and>
              (\<forall>l. bucket s' (next_ref s) l = concat (map (\<lambda>m. bucket s' (res_of s' m) l) ms)) \<and>
              (\<forall>m \<in> set ms. res_of s' m = res_of s m \<and>
                 (\<forall>l. bucket s' (res_of s m) l =
                    bucket s (res_of s m) l @ logged c (get_impl (monitoring_objs s m) device) l))"
    if nr: "\<forall>m \<in> set ms. raises (get_impl (monitoring_objs s m) device) = None"
  proof -
    from nr have nr0: "\<forall>m \<in> set ms. raises (get_impl (monitoring_objs s0 m) device) = None"
      by (simp add: im(2))
    from get_loop_effect[OF im(1) im(3) im(4) im(5) nr0] obtain s' where
      s': "get_loop c R ms device s0 = Inr (R, s')" "monitoring_objs s' = monitoring_objs s0"
        "\<And>l. bucket s' R l = bucket s0 R l @
            concat (map (\<lambda>m. bucket s0 (res_of s0 m) l
                             @ logged c (get_impl (monitoring_objs s0 m) device) l) ms)"
        "\<And>m l. m \<in> set ms \<Longrightarrow> bucket s' (res_of s0 m) l =
            bucket s0 (res_of s0 m) l @ logged c (get_impl (monitoring_objs s0 m) device) l"
      by blast
    have res': "res_of s' m = res_of s m" for m by (simp add: res_of_def s'(2) im(2))
    have each: "bucket s' (res_of s m) l =
        bucket s (res_of s m) l @ logged c (get_impl (monitoring_objs s m) device) l"
      if "m \<in> set ms" for m l
      using s'(4)[OF that, of l] im(6) that by (simp add: res0 im(2))
    have "bucket s' R l = concat (map (\<lambda>m. bucket s' (res_of s' m) l) ms)" for l
    proof -
      have "concat (map (\<lambda>m. bucket s0 (res_of s0 m) l
                             @ logged c (get_impl (monitoring_objs s0 m) device) l) ms) =
            concat (map (\<lambda>m. bucket s' (res_of s' m) l) ms)"
        by (rule arg_cong[where f = concat], rule map_cong[OF refl])
           (use im(6) in \<open>simp add: res' each res0 im(2)\<close>)
      then show ?thesis using im(7) by (simp add: s'(3))
    qed
    then show ?thesis using s'(1) each res' by (auto simp: g R)
  qed
  \<comment> \<open>the first module that raises ends the call\<close>
  have first: "get c ms device s = Inl e"
    if ms: "ms = pre @ m # post"
      and nr: "\<forall>m' \<in> set pre. raises (get_impl (monitoring_objs s m') device) = None"
      and r: "raises (get_impl (monitoring_objs s m) device) = Some e"
    for pre m post e
  proof -
    have pre: "\<forall>m \<in> set pre. results_ok c s0 (res_of s0 m)"
      "distinct (concat (map (\<lambda>m. refs_of s0 (res_of s0 m)) pre))"
      "\<forall>m \<in> set pre. separate s0 R (res_of s0 m)"
      "\<forall>m \<in> set pre. raises (get_impl (monitoring_objs s0 m) device) = None"
      using im(3,4,5) nr unfolding ms by (simp_all add: im(2))
    from get_loop_effect[OF im(1) pre] obtain s' where
      s': "get_loop c R pre device s0 = Inr (R, s')" "results_objs s' = results_objs s0"
        "monitoring_objs s' = monitoring_objs s0"
      by blast
    have "results_ok c s0 (res_of s0 m)" using im(3) ms by simp
    then have "set (level_list c) \<subseteq> set (keys_of s' (res_of s' m))"
      by (simp add: results_ok_def res_of_def s'(3) shape_cong[OF s'(2)])
    moreover have "raises (get_impl (monitoring_objs s' m) device) = Some e"
      using r by (simp add: s'(3) im(2))
    ultimately have "run c m device s' = Inl e" by (rule run_raises)
    then show ?thesis by (simp add: g ms get_loop_append s'(1))
  qed
  show ?thesis using all first by blast
qed

theorem get_folds_all_runs_witness:
  "levels_ordered example_levels \<and> modules_ok example_levels example_store [0, 7] \<and>
   modules_ok example_levels example_store [0, 14, 7] \<and>
   (\<exists>s'. get example_levels [0, 7] 0 example_store = Inr (21, s') \<and>
      (\<forall>l. bucket s' 21 l = bucket s' 1 l @ bucket s' 8 l) \<and>
      (\<forall>l. bucket s' 1 l = logged example_levels (ping_body 0) l) \<and>
      (\<forall>l. bucket s' 8 l = logged example_levels (latency_body 0) l)) \<and>
   get example_levels [0, 14, 7] 0 example_store = Inl (RuntimeError ''boom'')"
proof -
  have e: "bucket example_store r l = []" for r l
    by (simp add: bucket_def example_store_lists split: option.splits)
  have nr: "\<forall>m \<in> set [0, 7]. raises (get_impl (monitoring_objs example_store m) 0) = None"
    by (simp add: example_store_monitors example_raises)
  from get_folds_all_runs [OF example_levels_ordered example_modules_ok(1), of 0,
      THEN conjunct1, THEN mp, OF nr]
  obtain s' where s': "get example_levels [0, 7] 0 example_store = Inr (21, s')"
    "\<And>l. bucket s' 21 l = bucket s' (res_of s' 0) l @ bucket s' (res_of s' 7) l"
    "res_of s' 0 = 1" "res_of s' 7 = 8"
    "\<And>l. bucket s' 1 l = logged example_levels (ping_body 0) l"
    "\<And>l. bucket s' 8 l = logged example_levels (latency_body 0) l"
    by (auto simp: example_store_monitors res_of_def e)
  have a: "\<exists>s'. get example_levels [0, 7] 0 example_store = Inr (21, s') \<and>
      (\<forall>l. bucket s' 21 l = bucket s' 1 l @ bucket s' 8 l) \<and>
      (\<forall>l. bucket s' 1 l = logged example_levels (ping_body 0) l) \<and>
      (\<forall>l. bucket s' 8 l = logged example_levels (latency_body 0) l)"
    by (rule exI[of _ s']) (use s' in simp)
  from get_folds_all_runs [OF example_levels_ordered example_modules_ok(2), of 0,
      THEN conjunct2, THEN spec [where x = "[0::nat]"], THEN spec [where x = "14::nat"],
      THEN spec [where x = "[7::nat]"], THEN spec [where x = "RuntimeError ''boom''"]]
  have b: "get example_levels [0, 14, 7] 0 example_store = Inl (RuntimeError ''boom'')"
    by (simp add: example_store_monitors example_raises)
  show ?thesis using example_levels_ordered example_modules_ok a b by simp
qed

end
